theory Spec2Isabelle
  imports Complex_Main
begin

section \<open>The JODIE training script (src/jodie.py)\<close>

text \<open>
  The script is a single top-level program: argument check, data loading, derived
  constants, and a training loop of epochs over the first \<open>train_end_idx\<close> interactions.
  The numeric content of the model (projection, update, losses, optimiser) is opaque to the
  scheduling logic and is left out; what is kept is every piece of control state the loop
  reads or writes: the t-batch dictionaries, the per-entity batch counters, the window
  start time, the cross-epoch cache, and which rows of the trajectory tables are written.

  Timestamps, time differences and the train proportion are Python floats in the source;
  they are modelled as exact rationals, so rounding is not represented.
\<close>

subsection \<open>Errors\<close>

datatype error =
    SystemExit string   \<comment> \<open>\<open>sys.exit(msg)\<close>\<close>
  | KeyError rat        \<comment> \<open>a plain \<open>dict\<close> read at a missing key\<close>
  | IndexError          \<comment> \<open>a sequence or tensor read out of range\<close>
  | ZeroDivisionError   \<comment> \<open>a float division by zero\<close>

subsection \<open>Data\<close>

text \<open>
  \<open>load_network\<close> returns index-aligned parallel sequences; row \<open>j\<close> of the model is the
  \<open>j\<close>-th element of each of them.
\<close>

record interaction =
  userid :: nat
  itemid :: nat
  feature :: "rat list"
  user_timediff :: rat
  item_timediff :: rat
  previous_item :: nat
  timestamp :: rat

text \<open>
  Lines 173-179 append to seven parallel dictionaries \<open>lib.current_tbatches_*\<close> under the
  same key, lines 191-197 and 272-278 replace and store all seven together; the model keeps
  them as one dictionary whose values are lists of seven-field rows.
\<close>

record tbatch_entry =
  e_user :: nat
  e_item :: nat
  e_feature :: "rat list"
  e_interactionid :: nat
  e_user_timediff :: rat
  e_item_timediff :: rat
  e_previous_item :: nat

text \<open>A dictionary in insertion order, as Python keeps it; \<open>len\<close> is the number of keys.\<close>

type_synonym tbatches = "(int \<times> tbatch_entry list) list"

fun dict_append :: "tbatches \<Rightarrow> int \<Rightarrow> tbatch_entry \<Rightarrow> tbatches" where
  "dict_append [] k v = [(k, [v])]"
| "dict_append ((k', vs) # d) k v =
     (if k' = k then (k', vs @ [v]) # d else (k', vs) # dict_append d k v)"

definition dict_get :: "tbatches \<Rightarrow> int \<Rightarrow> tbatch_entry list" where
  "dict_get d k = (case map_of d k of None \<Rightarrow> [] | Some vs \<Rightarrow> vs)"

record lib_state =
  tbatchid_user :: "nat \<Rightarrow> int"
  tbatchid_item :: "nat \<Rightarrow> int"
  current_tbatches :: tbatches

text \<open>
  Modelled from the spec: \<open>reinitialize_tbatches\<close> lives in \<open>library_models\<close>, which is not
  among the sources. The spec's scheduler keeps a last-batch counter per actor and per
  target with a "not yet used" start value, and per-batch accumulating lists. The script
  calls the helper to initialise the t-batch globals at the start of every epoch (lines
  145-146) and again after each first-epoch flush (line 280), next to
  \<open>tbatch_to_insert = -1\<close>, and it walks the batches as \<open>range(len(...))\<close>, that is from
  key 0. The model therefore rebinds all globals to fresh tables: counters at \<open>-1\<close>,
  so that the first batch id is 0, and an empty batch dictionary. Rebinding, not clearing
  in place, keeps the dictionaries already stored in the cache intact.
\<close>

definition reinitialize_tbatches :: lib_state where
  "reinitialize_tbatches =
     \<lparr>tbatchid_user = (\<lambda>_. -1), tbatchid_item = (\<lambda>_. -1), current_tbatches = []\<rparr>"

record train_state =
  lib :: lib_state
  cached_tbatches :: "rat \<rightharpoonup> tbatches"
  tbatch_start_time :: "rat option"
  tbatch_to_insert :: int
  total_interaction_count :: nat
  processed :: "(rat \<times> tbatches) list"
    \<comment> \<open>log: one item per flush, the closing timestamp and the batches in the order
        the loop of lines 200-255 handled them\<close>
  user_embeddings_timeseries :: "nat list"
    \<comment> \<open>rows written by line 246, in order\<close>
  item_embeddings_timeseries :: "nat list"
    \<comment> \<open>rows written by line 247, in order\<close>

subsection \<open>Start-up (lines 37-83)\<close>

definition check_train_proportion :: "rat \<Rightarrow> error + unit" where
  "check_train_proportion train_proportion =
     (if train_proportion > 8 / 10
      then Inl (SystemExit ''Training sequence proportion cannot be greater than 0.8.'')
      else Inr ())"

datatype event = LoadNetwork

text \<open>
  The start-up as a trace of the externally visible steps: the check of line 40 comes
  first, \<open>load_network\<close> of lines 51-53 after it.
\<close>

definition startup :: "rat \<Rightarrow> error + event list" where
  "startup train_proportion =
     (case check_train_proportion train_proportion of
        Inl e \<Rightarrow> Inl e
      | Inr _ \<Rightarrow> Inr [LoadNetwork])"

definition num_items :: "nat \<Rightarrow> nat" where
  \<comment> \<open>line 60, from \<open>len(item2id)\<close>\<close>
  "num_items len_item2id = len_item2id + 1"

definition true_labels_ratio :: "int list \<Rightarrow> error + rat" where
  \<comment> \<open>line 64; the labels are the integers \<open>load_network\<close> read\<close>
  "true_labels_ratio y_true =
     (if 1 + sum_list y_true = 0 then Inl ZeroDivisionError
      else Inr (of_nat (length y_true) / (1 + of_int (sum_list y_true))))"

definition train_end_idx :: "nat \<Rightarrow> rat \<Rightarrow> nat" where
  \<comment> \<open>line 68; a negative product gives an empty \<open>range\<close>\<close>
  "train_end_idx num_interactions train_proportion =
     nat \<lfloor>of_nat num_interactions * train_proportion\<rfloor>"

definition tbatch_timespan :: "interaction list \<Rightarrow> error + rat" where
  \<comment> \<open>lines 82-83\<close>
  "tbatch_timespan stream =
     (if stream = [] then Inl IndexError
      else Inr ((timestamp (last stream) - timestamp (hd stream)) / 500))"

subsection \<open>The training loop (lines 133-293)\<close>

definition mk_entry :: "nat \<Rightarrow> interaction \<Rightarrow> tbatch_entry" where
  "mk_entry j x =
     \<lparr>e_user = userid x, e_item = itemid x, e_feature = feature x, e_interactionid = j,
      e_user_timediff = user_timediff x, e_item_timediff = item_timediff x,
      e_previous_item = previous_item x\<rparr>"

definition insert_interaction :: "lib_state \<Rightarrow> nat \<Rightarrow> interaction \<Rightarrow> lib_state \<times> int" where
  \<comment> \<open>lines 161-179\<close>
  "insert_interaction s j x =
     (let b = max (tbatchid_user s (userid x)) (tbatchid_item s (itemid x)) + 1
      in (\<lparr>tbatchid_user = (tbatchid_user s)(userid x := b),
           tbatchid_item = (tbatchid_item s)(itemid x := b),
           current_tbatches = dict_append (current_tbatches s) b (mk_entry j x)\<rparr>, b))"

definition process_tbatches :: "tbatches \<Rightarrow> tbatches" where
  \<comment> \<open>the loop header of lines 200-201 with the reads of lines 204-223\<close>
  "process_tbatches d = map (\<lambda>i. (int i, dict_get d (int i))) [0..<length d]"

definition batch_rows :: "tbatches \<Rightarrow> nat list" where
  \<comment> \<open>the rows \<open>tbatch_interactionids\<close> of the batches, in processing order\<close>
  "batch_rows bs = concat (map (\<lambda>(i, es). map e_interactionid es) bs)"

definition flush :: "bool \<Rightarrow> rat \<Rightarrow> train_state \<Rightarrow> error + train_state" where
  \<comment> \<open>lines 187-281, entered when the span is exceeded at \<open>ts\<close>\<close>
  "flush is_first_epoch ts st =
     (case (if is_first_epoch then Inr (current_tbatches (lib st))
            else (case cached_tbatches st ts of
                    None \<Rightarrow> Inl (KeyError ts)
                  | Some d \<Rightarrow> Inr d)) of
        Inl e \<Rightarrow> Inl e
      | Inr d \<Rightarrow>
          (let bs = process_tbatches d;
               st' = st\<lparr>tbatch_start_time := Some ts,
                        lib := (lib st)\<lparr>current_tbatches := d\<rparr>,
                        total_interaction_count :=
                          total_interaction_count st + length (batch_rows bs),
                        processed := processed st @ [(ts, bs)],
                        user_embeddings_timeseries :=
                          user_embeddings_timeseries st @ batch_rows bs,
                        item_embeddings_timeseries :=
                          item_embeddings_timeseries st @ batch_rows bs\<rparr>
           in Inr (if is_first_epoch
                   then st'\<lparr>cached_tbatches := (cached_tbatches st')(ts \<mapsto> d),
                            lib := reinitialize_tbatches,
                            tbatch_to_insert := -1\<rparr>
                   else st')))"

definition train_step ::
  "bool \<Rightarrow> rat \<Rightarrow> train_state \<Rightarrow> nat \<times> interaction \<Rightarrow> error + train_state" where
  \<comment> \<open>one pass of the body of the loop over \<open>j\<close>, lines 159-281\<close>
  "train_step is_first_epoch tspan st jx =
     (let j = fst jx; x = snd jx;
          st1 = (if is_first_epoch
                 then (let r = insert_interaction (lib st) j x
                       in st\<lparr>lib := fst r, tbatch_to_insert := snd r\<rparr>)
                 else st);
          ts = timestamp x;
          start = (case tbatch_start_time st1 of None \<Rightarrow> ts | Some t \<Rightarrow> t);
          st2 = st1\<lparr>tbatch_start_time := Some start\<rparr>
      in if ts - start > tspan then flush is_first_epoch ts st2 else Inr st2)"

fun run_interactions ::
  "bool \<Rightarrow> rat \<Rightarrow> train_state \<Rightarrow> (nat \<times> interaction) list \<Rightarrow> error + train_state" where
  "run_interactions is_first_epoch tspan st [] = Inr st"
| "run_interactions is_first_epoch tspan st (jx # rest) =
     (case train_step is_first_epoch tspan st jx of
        Inl e \<Rightarrow> Inl e
      | Inr st' \<Rightarrow> run_interactions is_first_epoch tspan st' rest)"

definition epoch_init :: "(rat \<rightharpoonup> tbatches) \<Rightarrow> train_state" where
  \<comment> \<open>lines 140-152\<close>
  "epoch_init cache =
     \<lparr>lib = reinitialize_tbatches, cached_tbatches = cache, tbatch_start_time = None,
      tbatch_to_insert = -1, total_interaction_count = 0, processed = [],
      user_embeddings_timeseries = [], item_embeddings_timeseries = []\<rparr>"

definition run_epoch ::
  "bool \<Rightarrow> rat \<Rightarrow> nat \<Rightarrow> interaction list \<Rightarrow> (rat \<rightharpoonup> tbatches) \<Rightarrow> error + train_state" where
  \<comment> \<open>one epoch; reading row \<open>j\<close> beyond the sequences raises\<close>
  "run_epoch is_first_epoch tspan train_end stream cache =
     (if train_end > length stream then Inl IndexError
      else run_interactions is_first_epoch tspan (epoch_init cache)
             (zip [0..<train_end] stream))"

subsection \<open>Invariants of the scheduler and of the loop\<close>

text \<open>
  These predicates are used in the proofs only. A window's dictionary is well formed when
  its keys are \<open>0, 1, \<dots>\<close> in insertion order, no batch is empty or repeats a user or
  an item, and batch ids grow with the interaction index for every user and item.
  \<open>flush_times\<close> is the flush condition of lines 181-187 on the timestamps alone.
\<close>

definition keys_contiguous :: "tbatches \<Rightarrow> bool" where
  "keys_contiguous d \<longleftrightarrow> map fst d = map int [0..<length d]"

definition tbatch_entries :: "tbatches \<Rightarrow> (int \<times> tbatch_entry) set" where
  "tbatch_entries d = {(k, e). \<exists>es. (k, es) \<in> set d \<and> e \<in> set es}"

definition conflict_free :: "tbatches \<Rightarrow> bool" where
  "conflict_free d \<longleftrightarrow>
     (\<forall>(b, es) \<in> set d. es \<noteq> [] \<and> distinct (map e_user es) \<and> distinct (map e_item es))"

definition ids_increasing :: "(int \<times> tbatch_entry) set \<Rightarrow> bool" where
  "ids_increasing E \<longleftrightarrow>
     (\<forall>(b1, e1) \<in> E. \<forall>(b2, e2) \<in> E.
        e_interactionid e1 < e_interactionid e2 \<and>
        (e_user e1 = e_user e2 \<or> e_item e1 = e_item e2) \<longrightarrow> b1 < b2)"

definition window_ok :: "tbatches \<Rightarrow> bool" where
  "window_ok d \<longleftrightarrow> keys_contiguous d \<and> conflict_free d \<and> ids_increasing (tbatch_entries d)"

definition lib_inv :: "lib_state \<Rightarrow> nat \<Rightarrow> bool" where
  "lib_inv s n \<longleftrightarrow>
     window_ok (current_tbatches s) \<and>
     (\<forall>u. - 1 \<le> tbatchid_user s u \<and> tbatchid_user s u < int (length (current_tbatches s))) \<and>
     (\<forall>i. - 1 \<le> tbatchid_item s i \<and> tbatchid_item s i < int (length (current_tbatches s))) \<and>
     (\<forall>(b, e) \<in> tbatch_entries (current_tbatches s).
        b \<le> tbatchid_user s (e_user e) \<and> b \<le> tbatchid_item s (e_item e) \<and>
        e_interactionid e < n)"

definition cache_ok :: "(rat \<rightharpoonup> tbatches) \<Rightarrow> bool" where
  "cache_ok c \<longleftrightarrow> (\<forall>t d. c t = Some d \<longrightarrow> window_ok d)"

definition log_ok :: "(rat \<times> tbatches) list \<Rightarrow> bool" where
  "log_ok l \<longleftrightarrow> (\<forall>(t, bs) \<in> set l. window_ok bs)"

definition train_inv :: "bool \<Rightarrow> train_state \<Rightarrow> nat \<Rightarrow> bool" where
  "train_inv first st n \<longleftrightarrow>
     (first \<longrightarrow> lib_inv (lib st) n) \<and> cache_ok (cached_tbatches st) \<and> log_ok (processed st)"

fun flush_times :: "rat \<Rightarrow> rat option \<Rightarrow> rat list \<Rightarrow> rat list" where
  "flush_times tspan start [] = []"
| "flush_times tspan start (ts # rest) =
     (let s = (case start of None \<Rightarrow> ts | Some t \<Rightarrow> t)
      in if ts - s > tspan then ts # flush_times tspan (Some ts) rest
         else flush_times tspan (Some s) rest)"

definition log_cached :: "train_state \<Rightarrow> bool" where
  "log_cached st \<longleftrightarrow> (\<forall>(t, bs) \<in> set (processed st). cached_tbatches st t \<noteq> None)"

definition cache_in_step :: "train_state \<Rightarrow> bool" where
  "cache_in_step st \<longleftrightarrow>
     (\<forall>(t, bs) \<in> set (processed st). cached_tbatches st t = Some bs) \<and>
     (\<forall>t \<in> dom (cached_tbatches st). \<exists>s. tbatch_start_time st = Some s \<and> t \<le> s)"

subsection \<open>Reading a run\<close>

definition epoch_log :: "error + train_state \<Rightarrow> (rat \<times> tbatches) list" where
  \<comment> \<open>the flush log of an epoch; empty when the epoch raised\<close>
  "epoch_log r = (case r of Inl e \<Rightarrow> [] | Inr st \<Rightarrow> processed st)"

definition batch_ids_of_user :: "nat \<Rightarrow> (rat \<times> tbatches) list \<Rightarrow> int list" where
  \<comment> \<open>the batch ids of the interactions of user \<open>u\<close> over an epoch, in interaction order\<close>
  "batch_ids_of_user u flushes =
     map snd (sort_key fst
       (concat (map (\<lambda>(t, bs).
          concat (map (\<lambda>(b, es).
            map (\<lambda>e. (e_interactionid e, b)) (filter (\<lambda>e. e_user e = u) es)) bs)) flushes)))"

subsection \<open>A small stream\<close>

text \<open>
  Five interactions of two users with two items, at times 0, 1000, 2000, 2001 and 2500; the
  item table has the two real items and the extra row 2. The span is 5 and the training
  boundary at proportion 0.8 is 4.
\<close>

definition mk_interaction :: "nat \<Rightarrow> nat \<Rightarrow> nat \<Rightarrow> rat \<Rightarrow> interaction" where
  "mk_interaction u i p t =
     \<lparr>userid = u, itemid = i, feature = [], user_timediff = 0, item_timediff = 0,
      previous_item = p, timestamp = t\<rparr>"

definition small_stream :: "interaction list" where
  "small_stream =
     [mk_interaction 0 0 2 0, mk_interaction 1 1 2 1000, mk_interaction 0 1 0 2000,
      mk_interaction 1 0 1 2001, mk_interaction 0 0 1 2500]"

section \<open>Concrete runs\<close>

lemmas run_defs =
  run_epoch_def epoch_init_def train_step_def flush_def insert_interaction_def
  process_tbatches_def batch_rows_def dict_get_def mk_entry_def reinitialize_tbatches_def
  small_stream_def mk_interaction_def Let_def upt_rec

lemma small_stream_timespan: "tbatch_timespan small_stream = Inr 5"
  by (simp add: tbatch_timespan_def small_stream_def mk_interaction_def)

lemma small_stream_train_end: "train_end_idx (length small_stream) (8 / 10) = 4"
  by (simp add: train_end_idx_def small_stream_def)

section \<open>Start-up\<close>

text \<open>
  C9. A train proportion strictly above 0.8 ends the program with \<open>sys.exit\<close> before
  \<open>load_network\<close> is reached: the start-up returns the exit and no trace. A proportion of
  exactly 0.8 passes the check and the data is loaded.
\<close>

theorem train_proportion_check:
  "(8 / 10 < p \<longrightarrow>
      startup p = Inl (SystemExit ''Training sequence proportion cannot be greater than 0.8.''))
   \<and> startup (8 / 10) = Inr [LoadNetwork]"
  by (simp add: startup_def check_train_proportion_def)

theorem train_proportion_check_witness:
  "(8 / 10 < (85 / 100 :: rat)) \<and>
   startup (85 / 100) = Inl (SystemExit ''Training sequence proportion cannot be greater than 0.8.'')"
  using train_proportion_check [of "85 / 100"] by simp

section \<open>The trailing window\<close>

text \<open>
  C1. On the small stream the span is 5 and the training boundary is 4. The first epoch
  flushes at interactions 1 and 2 and then ends: the flushed windows hold interactions
  0, 1 and 2, and interaction 3, which lies below the boundary, belongs to no flushed
  window. The loop has no flush after its last iteration.
\<close>

theorem trailing_window_not_flushed:
  "map_sum id (\<lambda>st. map (\<lambda>w. batch_rows (snd w)) (processed st))
     (run_epoch True 5 4 small_stream Map.empty) = Inr [[0, 1], [2]]"
  by (simp add: run_defs)

text \<open>
  C6. In the same run, rows 0, 1 and 2 of both trajectory tables are written, each once;
  row 3 is below the training boundary 4 and is never written.
\<close>

theorem trailing_rows_not_written:
  "map_sum id (\<lambda>st. (user_embeddings_timeseries st, item_embeddings_timeseries st))
     (run_epoch True 5 4 small_stream Map.empty) = Inr ([0, 1, 2], [0, 1, 2])"
  by (simp add: run_defs)

section \<open>The dictionary and the scheduler invariant\<close>

lemma dict_append_keys:
  "map fst (dict_append d k v) = (if k \<in> fst ` set d then map fst d else map fst d @ [k])"
  by (induction d k v rule: dict_append.induct) auto

lemma dict_append_length:
  "length (dict_append d k v) = (if k \<in> fst ` set d then length d else Suc (length d))"
  using arg_cong [OF dict_append_keys [of d k v], of length] by (simp split: if_splits)

lemma dict_append_set:
  "(b, es) \<in> set (dict_append d k v) \<Longrightarrow>
     (b, es) \<in> set d \<or> (b = k \<and> (es = [v] \<or> (\<exists>es'. (k, es') \<in> set d \<and> es = es' @ [v])))"
  by (induction d k v rule: dict_append.induct) (auto split: if_splits)

lemma keys_contiguous_set:
  "keys_contiguous d \<Longrightarrow> fst ` set d = {k. 0 \<le> k \<and> k < int (length d)}"
proof -
  assume "keys_contiguous d"
  then have "set (map fst d) = set (map int [0..<length d])"
    by (simp add: keys_contiguous_def)
  then have "fst ` set d = int ` {0..<length d}" by simp
  also have "\<dots> = {k. 0 \<le> k \<and> k < int (length d)}"
    by (auto simp: image_int_atLeastLessThan)
  finally show ?thesis .
qed

lemma keys_contiguous_append:
  assumes "keys_contiguous d" "0 \<le> k" "k \<le> int (length d)"
  shows "keys_contiguous (dict_append d k v)"
proof (cases "k < int (length d)")
  case True
  with assms keys_contiguous_set [OF assms(1)] have "k \<in> fst ` set d" by simp
  with assms(1) show ?thesis
    by (simp add: keys_contiguous_def dict_append_keys dict_append_length)
next
  case False
  with assms have k: "k = int (length d)" by simp
  with keys_contiguous_set [OF assms(1)] have "k \<notin> fst ` set d" by simp
  with assms(1) k show ?thesis
    by (simp add: keys_contiguous_def dict_append_keys dict_append_length)
qed

lemma process_tbatches_id:
  assumes "keys_contiguous d"
  shows "process_tbatches d = d"
proof (rule nth_equalityI)
  show "length (process_tbatches d) = length d" by (simp add: process_tbatches_def)
next
  fix i assume "i < length (process_tbatches d)"
  then have i: "i < length d" by (simp add: process_tbatches_def)
  from assms have dist: "distinct (map fst d)"
    by (simp add: keys_contiguous_def distinct_map inj_on_def)
  from assms have "map fst d ! i = map int [0..<length d] ! i"
    by (simp only: keys_contiguous_def)
  with i have key: "fst (d ! i) = int i" by simp
  have "(fst (d ! i), snd (d ! i)) \<in> set d" using i by simp
  with dist have "map_of d (fst (d ! i)) = Some (snd (d ! i))" by (simp add: map_of_is_SomeI del: prod.collapse)
  with key have "dict_get d (int i) = snd (d ! i)" by (simp add: dict_get_def)
  with i key show "process_tbatches d ! i = d ! i"
    by (simp add: process_tbatches_def prod_eq_iff)
qed

lemma tbatch_entries_append:
  "tbatch_entries (dict_append d k v) = insert (k, v) (tbatch_entries d)"
  by (induction d k v rule: dict_append.induct) (auto simp: tbatch_entries_def)

lemma lib_inv_reinitialize: "lib_inv reinitialize_tbatches n"
  by (simp add: lib_inv_def reinitialize_tbatches_def window_ok_def keys_contiguous_def
      conflict_free_def ids_increasing_def tbatch_entries_def)

lemma conflict_free_append:
  assumes cf: "conflict_free d"
    and fresh: "\<forall>(b, e) \<in> tbatch_entries d. b = k \<longrightarrow> e_user e \<noteq> e_user v \<and> e_item e \<noteq> e_item v"
  shows "conflict_free (dict_append d k v)"
  unfolding conflict_free_def
proof (intro ballI, clarify)
  fix b es assume "(b, es) \<in> set (dict_append d k v)"
  from dict_append_set [OF this]
  consider "(b, es) \<in> set d" | "b = k" "es = [v]"
    | es' where "b = k" "(k, es') \<in> set d" "es = es' @ [v]" by blast
  then show "es \<noteq> [] \<and> distinct (map e_user es) \<and> distinct (map e_item es)"
  proof cases
    case 1 with cf show ?thesis by (auto simp: conflict_free_def)
  next
    case 2 then show ?thesis by simp
  next
    case 3
    from 3(2) cf have "distinct (map e_user es')" "distinct (map e_item es')"
      by (auto simp: conflict_free_def)
    moreover from 3(2) fresh have "\<forall>e \<in> set es'. e_user e \<noteq> e_user v \<and> e_item e \<noteq> e_item v"
      by (auto simp: tbatch_entries_def)
    ultimately show ?thesis using 3(3) by auto
  qed
qed

lemma lib_inv_insert:
  assumes inv: "lib_inv s n" and nj: "n \<le> j"
  shows "lib_inv (fst (insert_interaction s j x)) (Suc j)"
proof -
  define d where "d = current_tbatches s"
  define b where "b = max (tbatchid_user s (userid x)) (tbatchid_item s (itemid x)) + 1"
  define v where "v = mk_entry j x"
  define s' where "s' = fst (insert_interaction s j x)"
  have s': "tbatchid_user s' = (tbatchid_user s)(userid x := b)"
    "tbatchid_item s' = (tbatchid_item s)(itemid x := b)"
    "current_tbatches s' = dict_append d b v"
    by (simp_all add: s'_def insert_interaction_def Let_def b_def d_def v_def)
  have v: "e_user v = userid x" "e_item v = itemid x" "e_interactionid v = j"
    by (simp_all add: v_def mk_entry_def)
  from inv have wo: "keys_contiguous d" "conflict_free d" "ids_increasing (tbatch_entries d)"
    and cu: "\<And>u. - 1 \<le> tbatchid_user s u \<and> tbatchid_user s u < int (length d)"
    and ci: "\<And>i. - 1 \<le> tbatchid_item s i \<and> tbatchid_item s i < int (length d)"
    and en: "\<And>k e. (k, e) \<in> tbatch_entries d \<Longrightarrow>
        k \<le> tbatchid_user s (e_user e) \<and> k \<le> tbatchid_item s (e_item e) \<and> e_interactionid e < n"
    by (auto simp: lib_inv_def window_ok_def d_def)
  have b0: "0 \<le> b" "b \<le> int (length d)"
    using cu [of "userid x"] ci [of "itemid x"] by (auto simp: b_def)
  have bu: "tbatchid_user s (userid x) < b" and bi: "tbatchid_item s (itemid x) < b"
    by (auto simp: b_def)
  have kc: "keys_contiguous (dict_append d b v)"
    using wo(1) b0 by (rule keys_contiguous_append)
  have len: "length d \<le> length (dict_append d b v)" "b < int (length (dict_append d b v))"
    using b0 keys_contiguous_set [OF wo(1)] by (auto simp: dict_append_length)
  have cf: "conflict_free (dict_append d b v)"
  proof (rule conflict_free_append [OF wo(2)], clarify)
    fix e assume "(b, e) \<in> tbatch_entries d"
    from en [OF this] bu bi show "e_user e \<noteq> e_user v \<and> e_item e \<noteq> e_item v"
      by (auto simp: v)
  qed
  have inc: "ids_increasing (tbatch_entries (dict_append d b v))"
    unfolding ids_increasing_def tbatch_entries_append
  proof (intro ballI, clarify)
    fix b1 e1 b2 e2
    assume m1: "(b1, e1) \<in> insert (b, v) (tbatch_entries d)"
      and m2: "(b2, e2) \<in> insert (b, v) (tbatch_entries d)"
      and lt: "e_interactionid e1 < e_interactionid e2"
      and same: "e_user e1 = e_user e2 \<or> e_item e1 = e_item e2"
    show "b1 < b2"
    proof (cases "(b2, e2) = (b, v)")
      case True
      with lt v have "(b1, e1) \<noteq> (b, v)" by auto
      with m1 have o1: "(b1, e1) \<in> tbatch_entries d" by blast
      from en [OF o1] same True bu bi show ?thesis by (auto simp: v)
    next
      case False
      with m2 have o2: "(b2, e2) \<in> tbatch_entries d" by blast
      show ?thesis
      proof (cases "(b1, e1) = (b, v)")
        case True
        with en [OF o2] lt nj show ?thesis by (auto simp: v)
      next
        case False
        with m1 have o1: "(b1, e1) \<in> tbatch_entries d" by blast
        with o2 wo(3) lt same show ?thesis by (auto simp: ids_increasing_def)
      qed
    qed
  qed
  have cu': "\<And>u. - 1 \<le> tbatchid_user s' u \<and> tbatchid_user s' u < int (length (current_tbatches s'))"
    using cu b0 len by (auto simp: s' order.strict_trans2 [OF _ len(1) [THEN iffD2 [OF of_nat_le_iff]]])
  have ci': "\<And>i. - 1 \<le> tbatchid_item s' i \<and> tbatchid_item s' i < int (length (current_tbatches s'))"
    using ci b0 len by (auto simp: s' order.strict_trans2 [OF _ len(1) [THEN iffD2 [OF of_nat_le_iff]]])
  have en': "\<And>k e. (k, e) \<in> tbatch_entries (current_tbatches s') \<Longrightarrow>
        k \<le> tbatchid_user s' (e_user e) \<and> k \<le> tbatchid_item s' (e_item e) \<and> e_interactionid e < Suc j"
    using en nj bu bi by (fastforce simp: s' tbatch_entries_append v)
  show ?thesis
    unfolding s'_def [symmetric] lib_inv_def window_ok_def
    using kc cf inc cu' ci' en' by (auto simp: s'(3))
qed

lemma train_step_inv:
  assumes inv: "train_inv first st n" and nj: "n \<le> fst jx"
    and step: "train_step first tspan st jx = Inr st'"
  shows "train_inv first st' (Suc (fst jx))"
proof (cases first)
  case True
  define l' where "l' = fst (insert_interaction (lib st) (fst jx) (snd jx))"
  from inv True have "lib_inv (lib st) n" by (simp add: train_inv_def)
  then have li: "lib_inv l' (Suc (fst jx))"
    unfolding l'_def using nj by (rule lib_inv_insert)
  then have wo: "window_ok (current_tbatches l')" by (simp add: lib_inv_def)
  then have pid: "process_tbatches (current_tbatches l') = current_tbatches l'"
    by (simp add: window_ok_def process_tbatches_id)
  from inv have co: "cache_ok (cached_tbatches st)" and lo: "log_ok (processed st)"
    by (simp_all add: train_inv_def)
  show ?thesis
    using step True li wo pid lib_inv_reinitialize co lo
    by (auto simp: train_step_def flush_def Let_def train_inv_def cache_ok_def log_ok_def
        l'_def [symmetric] split: if_splits)
next
  case False
  from inv have co: "cache_ok (cached_tbatches st)" and lo: "log_ok (processed st)"
    by (simp_all add: train_inv_def)
  show ?thesis
    using step False co lo
    by (auto simp: train_step_def flush_def Let_def train_inv_def cache_ok_def log_ok_def
        window_ok_def process_tbatches_id split: if_splits option.splits)
qed

lemma run_interactions_inv:
  "train_inv first st n \<Longrightarrow> sorted_wrt (<) (map fst xs) \<Longrightarrow> \<forall>j \<in> set (map fst xs). n \<le> j \<Longrightarrow>
   run_interactions first tspan st xs = Inr st' \<Longrightarrow> \<exists>m. train_inv first st' m"
proof (induction xs arbitrary: st n)
  case Nil
  then show ?case by auto
next
  case (Cons jx xs)
  from Cons.prems(4) obtain st1 where
    step: "train_step first tspan st jx = Inr st1"
    and rest: "run_interactions first tspan st1 xs = Inr st'"
    by (auto split: sum.splits)
  from Cons.prems(3) have nj: "n \<le> fst jx" by simp
  have inv1: "train_inv first st1 (Suc (fst jx))"
    using Cons.prems(1) nj step by (rule train_step_inv)
  from Cons.prems(2) have "sorted_wrt (<) (map fst xs)" "\<forall>j \<in> set (map fst xs). Suc (fst jx) \<le> j"
    by auto
  then show ?case using Cons.IH [OF inv1 _ _ rest] by blast
qed

lemma run_epoch_ok:
  assumes "cache_ok cache" "run_epoch first tspan n stream cache = Inr st"
  shows "log_ok (processed st) \<and> cache_ok (cached_tbatches st)"
proof -
  from assms(2) have le: "n \<le> length stream"
    and run: "run_interactions first tspan (epoch_init cache) (zip [0..<n] stream) = Inr st"
    by (auto simp: run_epoch_def split: if_splits)
  have i0: "train_inv first (epoch_init cache) 0"
    using assms(1) by (simp add: train_inv_def epoch_init_def lib_inv_reinitialize log_ok_def)
  from le have fs: "map fst (zip [0..<n] stream) = [0..<n]"
    by (simp add: map_fst_zip_take)
  have "\<exists>m. train_inv first st m"
    by (rule run_interactions_inv [OF i0 _ _ run]) (simp_all add: fs)
  then show ?thesis by (auto simp: train_inv_def)
qed

lemma train_step_times:
  assumes "train_step first tspan st jx = Inr st'"
  shows "map fst (processed st') @ flush_times tspan (tbatch_start_time st') tss =
         map fst (processed st) @ flush_times tspan (tbatch_start_time st) (timestamp (snd jx) # tss)"
  using assms
  by (auto simp: train_step_def flush_def Let_def split: if_splits option.splits)

lemma run_interactions_times:
  "run_interactions first tspan st xs = Inr st' \<Longrightarrow>
   map fst (processed st') =
     map fst (processed st) @ flush_times tspan (tbatch_start_time st) (map (\<lambda>jx. timestamp (snd jx)) xs)"
proof (induction xs arbitrary: st)
  case Nil
  then show ?case by simp
next
  case (Cons jx xs)
  from Cons.prems obtain st1 where
    step: "train_step first tspan st jx = Inr st1"
    and rest: "run_interactions first tspan st1 xs = Inr st'"
    by (auto split: sum.splits)
  from Cons.IH [OF rest] train_step_times [OF step, of "map (\<lambda>jx. timestamp (snd jx)) xs"]
  show ?case by simp
qed

lemma train_step_log_cached:
  "log_cached st \<Longrightarrow> train_step True tspan st jx = Inr st' \<Longrightarrow> log_cached st'"
  by (auto simp: train_step_def flush_def Let_def log_cached_def split: if_splits)

lemma run_interactions_log_cached:
  "log_cached st \<Longrightarrow> run_interactions True tspan st xs = Inr st' \<Longrightarrow> log_cached st'"
proof (induction xs arbitrary: st)
  case Nil
  then show ?case by simp
next
  case (Cons jx xs)
  then show ?case by (auto split: sum.splits dest: train_step_log_cached)
qed

lemma replay_runs:
  "set (flush_times tspan (tbatch_start_time st) (map (\<lambda>jx. timestamp (snd jx)) xs))
     \<subseteq> dom (cached_tbatches st) \<Longrightarrow>
   \<exists>st'. run_interactions False tspan st xs = Inr st' \<and>
     cached_tbatches st' = cached_tbatches st \<and>
     tbatch_to_insert st' = tbatch_to_insert st \<and>
     tbatchid_user (lib st') = tbatchid_user (lib st) \<and>
     tbatchid_item (lib st') = tbatchid_item (lib st) \<and>
     processed st' = processed st @
       map (\<lambda>t. (t, process_tbatches (the (cached_tbatches st t))))
         (flush_times tspan (tbatch_start_time st) (map (\<lambda>jx. timestamp (snd jx)) xs))"
proof (induction xs arbitrary: st)
  case Nil
  then show ?case by simp
next
  case (Cons jx xs)
  define ts where "ts = timestamp (snd jx)"
  define s where "s = (case tbatch_start_time st of None \<Rightarrow> ts | Some t \<Rightarrow> t)"
  let ?tss = "map (\<lambda>jx. timestamp (snd jx)) xs"
  have ft: "flush_times tspan (tbatch_start_time st) (map (\<lambda>jx. timestamp (snd jx)) (jx # xs)) =
      (if ts - s > tspan then ts # flush_times tspan (Some ts) ?tss
       else flush_times tspan (Some s) ?tss)"
    unfolding s_def ts_def by (simp add: Let_def)
  note prem = Cons.prems [unfolded ft]
  show ?case
  proof (cases "ts - s > tspan")
    case True
    with prem have "ts \<in> dom (cached_tbatches st)"
      and sub': "set (flush_times tspan (Some ts) ?tss) \<subseteq> dom (cached_tbatches st)" by auto
    then obtain d where d: "cached_tbatches st ts = Some d" by auto
    define st1 where "st1 = st\<lparr>tbatch_start_time := Some ts,
        lib := (lib st)\<lparr>current_tbatches := d\<rparr>,
        total_interaction_count :=
          total_interaction_count st + length (batch_rows (process_tbatches d)),
        processed := processed st @ [(ts, process_tbatches d)],
        user_embeddings_timeseries :=
          user_embeddings_timeseries st @ batch_rows (process_tbatches d),
        item_embeddings_timeseries :=
          item_embeddings_timeseries st @ batch_rows (process_tbatches d)\<rparr>"
    have step: "train_step False tspan st jx = Inr st1"
      unfolding st1_def s_def ts_def train_step_def flush_def Let_def
      using True [unfolded ts_def s_def] d [unfolded ts_def] by simp
    have sub: "set (flush_times tspan (tbatch_start_time st1) ?tss) \<subseteq> dom (cached_tbatches st1)"
      using sub' by (simp add: st1_def)
    from Cons.IH [OF sub] obtain st' where
      "run_interactions False tspan st1 xs = Inr st'"
      "cached_tbatches st' = cached_tbatches st1"
      "tbatch_to_insert st' = tbatch_to_insert st1"
      "tbatchid_user (lib st') = tbatchid_user (lib st1)"
      "tbatchid_item (lib st') = tbatchid_item (lib st1)"
      "processed st' = processed st1 @
         map (\<lambda>t. (t, process_tbatches (the (cached_tbatches st1 t))))
           (flush_times tspan (tbatch_start_time st1) ?tss)"
      by blast
    then show ?thesis
      unfolding ft using step True d by (simp add: st1_def)
  next
    case False
    with prem have sub': "set (flush_times tspan (Some s) ?tss) \<subseteq> dom (cached_tbatches st)"
      by auto
    define st1 where "st1 = st\<lparr>tbatch_start_time := Some s\<rparr>"
    have step: "train_step False tspan st jx = Inr st1"
      unfolding st1_def s_def ts_def train_step_def flush_def Let_def
      using False [unfolded ts_def s_def] by simp
    have sub: "set (flush_times tspan (tbatch_start_time st1) ?tss) \<subseteq> dom (cached_tbatches st1)"
      using sub' by (simp add: st1_def)
    from Cons.IH [OF sub] obtain st' where
      "run_interactions False tspan st1 xs = Inr st'"
      "cached_tbatches st' = cached_tbatches st1"
      "tbatch_to_insert st' = tbatch_to_insert st1"
      "tbatchid_user (lib st') = tbatchid_user (lib st1)"
      "tbatchid_item (lib st') = tbatchid_item (lib st1)"
      "processed st' = processed st1 @
         map (\<lambda>t. (t, process_tbatches (the (cached_tbatches st1 t))))
           (flush_times tspan (tbatch_start_time st1) ?tss)"
      by blast
    then show ?thesis
      unfolding ft using step False by (simp add: st1_def)
  qed
qed

lemma small_stream_first_epoch:
  "\<exists>st. run_epoch True 5 4 small_stream Map.empty = Inr st \<and>
     processed st =
       [(1000, [(0, [mk_entry 0 (mk_interaction 0 0 2 0), mk_entry 1 (mk_interaction 1 1 2 1000)])]),
        (2000, [(0, [mk_entry 2 (mk_interaction 0 1 0 2000)])])]"
  by (simp add: run_defs)

lemma cache_ok_empty: "cache_ok Map.empty"
  by (simp add: cache_ok_def)

section \<open>Batches\<close>

text \<open>
  C3. In the first epoch and in every later epoch that replays its cache, every batch of
  every flushed window holds pairwise distinct users and pairwise distinct items.
\<close>

theorem batches_conflict_free:
  assumes "run_epoch True tspan n stream Map.empty = Inr st1"
    and "st = st1 \<or> run_epoch False tspan n stream (cached_tbatches st1) = Inr st"
    and "(t, bs) \<in> set (processed st)" and "(b, es) \<in> set bs"
  shows "distinct (map e_user es) \<and> distinct (map e_item es)"
proof -
  from run_epoch_ok [OF cache_ok_empty assms(1)]
  have l1: "log_ok (processed st1)" and c1: "cache_ok (cached_tbatches st1)" by simp_all
  from assms(2) have "log_ok (processed st)"
  proof
    assume "st = st1" with l1 show ?thesis by simp
  next
    assume "run_epoch False tspan n stream (cached_tbatches st1) = Inr st"
    from run_epoch_ok [OF c1 this] show ?thesis by simp
  qed
  with assms(3) have "window_ok bs" by (auto simp: log_ok_def)
  with assms(4) show ?thesis by (auto simp: window_ok_def conflict_free_def)
qed

theorem batches_conflict_free_witness:
  "epoch_log (run_epoch True 5 4 small_stream Map.empty) =
     [(1000, [(0, [mk_entry 0 (mk_interaction 0 0 2 0), mk_entry 1 (mk_interaction 1 1 2 1000)])]),
      (2000, [(0, [mk_entry 2 (mk_interaction 0 1 0 2000)])])] \<and>
   distinct (map e_user [mk_entry 0 (mk_interaction 0 0 2 0), mk_entry 1 (mk_interaction 1 1 2 1000)]) \<and>
   distinct (map e_item [mk_entry 0 (mk_interaction 0 0 2 0), mk_entry 1 (mk_interaction 1 1 2 1000)])"
proof -
  from small_stream_first_epoch obtain st where
    run: "run_epoch True 5 4 small_stream Map.empty = Inr st"
    and lg: "processed st =
       [(1000, [(0, [mk_entry 0 (mk_interaction 0 0 2 0), mk_entry 1 (mk_interaction 1 1 2 1000)])]),
        (2000, [(0, [mk_entry 2 (mk_interaction 0 1 0 2000)])])]"
    by blast
  have m: "(1000, [(0, [mk_entry 0 (mk_interaction 0 0 2 0), mk_entry 1 (mk_interaction 1 1 2 1000)])])
      \<in> set (processed st)"
    by (simp add: lg)
  have "distinct (map e_user [mk_entry 0 (mk_interaction 0 0 2 0), mk_entry 1 (mk_interaction 1 1 2 1000)]) \<and>
    distinct (map e_item [mk_entry 0 (mk_interaction 0 0 2 0), mk_entry 1 (mk_interaction 1 1 2 1000)])"
    by (rule batches_conflict_free [OF run disjI1 [OF refl] m]) simp
  then show ?thesis by (simp add: epoch_log_def run lg)
qed

section \<open>Batch ids across windows\<close>

text \<open>
  C2, as stated, fails: the counters are re-initialised with the batch lists after every
  first-epoch flush (line 280), so batch ids restart at 0 in each window. On the small
  stream user 0 is in interaction 0 (first window) and interaction 2 (second window),
  both with batch id 0.
\<close>

theorem batch_ids_restart_counterexample:
  "\<not> sorted_wrt (<) (batch_ids_of_user 0 (epoch_log (run_epoch True 5 4 small_stream Map.empty)))"
  by (simp add: epoch_log_def batch_ids_of_user_def run_defs)

text \<open>
  C2, amended. Within one flushed window the batch keys start again at 0, and for every
  user and every item the batch id grows strictly with the interaction index.
\<close>

theorem batch_ids_increase_within_window:
  assumes "run_epoch True tspan n stream Map.empty = Inr st"
    and "(t, bs) \<in> set (processed st)"
    and "(b1, es1) \<in> set bs" and "e1 \<in> set es1"
    and "(b2, es2) \<in> set bs" and "e2 \<in> set es2"
    and "e_interactionid e1 < e_interactionid e2"
    and "e_user e1 = e_user e2 \<or> e_item e1 = e_item e2"
  shows "b1 < b2 \<and> map fst bs = map int [0..<length bs]"
proof -
  from run_epoch_ok [OF cache_ok_empty assms(1)] assms(2)
  have wo: "window_ok bs" by (auto simp: log_ok_def)
  from assms(3,4) have m1: "(b1, e1) \<in> tbatch_entries bs" by (auto simp: tbatch_entries_def)
  from assms(5,6) have m2: "(b2, e2) \<in> tbatch_entries bs" by (auto simp: tbatch_entries_def)
  from wo have "ids_increasing (tbatch_entries bs)" by (simp add: window_ok_def)
  with m1 m2 assms(7,8) have "b1 < b2" by (auto simp: ids_increasing_def)
  with wo show ?thesis by (simp add: window_ok_def keys_contiguous_def)
qed

(*THEOREMS*)

end
